theory Spec2Isabelle
  imports Complex_Main "HOL-Library.Multiset"
begin

section \<open>Errors\<close>

text \<open>
  The Python exceptions that the modelled code can raise.  A function that may raise
  returns \<open>py_error + 'a\<close>, with \<open>Inl\<close> for the exception.
\<close>

datatype py_error = IndexError | ValueError | RuntimeError

section \<open>The actuator link (commander.py, class MagnetController)\<close>

definition HEADER1 :: nat where "HEADER1 = 170"
definition HEADER2 :: nat where "HEADER2 = 85"
definition OFFSET :: int where "OFFSET = 10"
definition ACTION_IN :: int where "ACTION_IN = 0"
definition ACTION_OUT :: int where "ACTION_OUT = 1"

text \<open>
  The serial connection: whether the port is open and every byte written to it so far,
  oldest first.  Writing to a port that is not open raises in pyserial.
\<close>

record serial_port =
  is_open :: bool
  written :: "nat list"

record MagnetController =
  is_connected :: bool
  serial_conn :: "serial_port option"

text \<open>
  \<open>_send_command\<close>: the connection check, the two argument checks, then the four
  bytes are built and written inside \<open>try\<close>; an exception there is caught and makes the
  call return False.  The result is the returned flag and the controller afterwards.
\<close>

definition send_command :: "MagnetController \<Rightarrow> int \<Rightarrow> int \<Rightarrow> bool \<times> MagnetController" where
  "send_command c magnet_id action =
     (if \<not> is_connected c \<or> serial_conn c = None then (False, c)
      else if \<not> (0 \<le> magnet_id \<and> magnet_id \<le> 8) then (False, c)
      else if action \<notin> set [ACTION_IN, ACTION_OUT] then (False, c)
      else (case serial_conn c of
              None \<Rightarrow> (False, c)
            | Some s \<Rightarrow>
                (let command = [HEADER1, HEADER2, nat (magnet_id + OFFSET), nat (action + OFFSET)]
                 in if is_open s
                    then (True, c\<lparr>serial_conn := Some (s\<lparr>written := written s @ command\<rparr>)\<rparr>)
                    else (False, c))))"

definition magnet_in :: "MagnetController \<Rightarrow> int \<Rightarrow> bool \<times> MagnetController" where
  "magnet_in c magnet_id = send_command c magnet_id ACTION_IN"

definition magnet_out :: "MagnetController \<Rightarrow> int \<Rightarrow> bool \<times> MagnetController" where
  "magnet_out c magnet_id = send_command c magnet_id ACTION_OUT"

section \<open>The reward (diffuser\_env.py, \_calculate\_reward)\<close>

text \<open>
  Magnitudes are modelled as exact reals: rounding of the float32 arithmetic is not
  modelled.  numpy's mean of an empty array is nan, which is the value \<open>None\<close> here,
  and nan propagates through every later operation.
\<close>

definition np_mean :: "real list \<Rightarrow> real option" where
  "np_mean xs = (if xs = [] then None else Some (sum_list xs / real (length xs)))"

text \<open>\<open>np.std\<close> (population form): the root of the mean squared deviation from the mean.\<close>

definition np_std :: "real list \<Rightarrow> real option" where
  "np_std xs =
     (case np_mean xs of
        None \<Rightarrow> None
      | Some m \<Rightarrow> (case np_mean (map (\<lambda>x. (x - m)\<^sup>2) xs) of
                     None \<Rightarrow> None
                   | Some v \<Rightarrow> Some (sqrt v)))"

definition epsilon_floor :: real where
  "epsilon_floor = 1 / 1000000"

text \<open>
  \<open>std_devs = np.std(observation, axis=1)\<close>, one value per frame;
  \<open>reward = np.mean(1.0 / (std_devs + 1e-6))\<close>.  A nan among the standard deviations
  makes the mean nan.
\<close>

definition calculate_reward :: "real list list \<Rightarrow> real option" where
  "calculate_reward observation =
     (let std_devs = map np_std observation
      in if None \<in> set std_devs then None
         else np_mean (map (\<lambda>s. 1 / (the s + epsilon_floor)) std_devs))"

section \<open>The control environment (diffuser\_env.py, class DiffuserEnv)\<close>

record DiffuserEnv =
  controller :: MagnetController
  magnet_states :: "int list"
  current_step :: int
  max_steps :: int

text \<open>The state the constructor leaves, for the controller that \<open>connect\<close> produced.\<close>

definition DiffuserEnv_init :: "MagnetController \<Rightarrow> DiffuserEnv" where
  "DiffuserEnv_init c =
     \<lparr>controller = c, magnet_states = replicate 9 0, current_step = 0, max_steps = 1000\<rparr>"

text \<open>
  \<open>_take_action\<close>.  Python's \<open>%\<close> with a positive divisor is the floor modulus, as
  \<open>mod\<close> on \<open>int\<close>.  Reading \<open>magnet_states[magnet_id]\<close> beyond the array raises
  IndexError.  The flag returned by \<open>_send_command\<close> is dropped by the source.
\<close>

definition take_action :: "DiffuserEnv \<Rightarrow> int \<Rightarrow> py_error + DiffuserEnv" where
  "take_action e action =
     (if action = 18 then Inr e
      else
        (let magnet_id = action mod 9;
             move = (if action \<ge> 9 then ACTION_OUT else ACTION_IN)
         in if \<not> nat magnet_id < length (magnet_states e) then Inl IndexError
            else if magnet_states e ! nat magnet_id \<noteq> move
            then (let (ok, c') = send_command (controller e) magnet_id move
                  in Inr (e\<lparr>controller := c',
                            magnet_states := (magnet_states e)[nat magnet_id := move]\<rparr>))
            else Inr e))"

text \<open>
  \<open>action_masks\<close>: the loop over \<open>range(9)\<close>, run on the mask that starts all True
  with entry 18 cleared.
\<close>

fun mask_loop :: "int list \<Rightarrow> nat list \<Rightarrow> bool list \<Rightarrow> py_error + bool list" where
  "mask_loop ms [] msk = Inr msk"
| "mask_loop ms (i # rest) msk =
     (if \<not> i < length ms then Inl IndexError
      else if ms ! i = ACTION_IN then mask_loop ms rest (msk[i := False])
      else mask_loop ms rest (msk[i + 9 := False]))"

definition action_masks :: "DiffuserEnv \<Rightarrow> py_error + bool list" where
  "action_masks e = mask_loop (magnet_states e) [0..<9] ((replicate 19 True)[18 := False])"

text \<open>
  \<open>reset\<close>: a retract command for each of the nine actuators, whatever its recorded
  state, then the recorded states are filled with 0 and the step counter cleared.  The
  observation is what the sensor path delivers, an input of the model.
\<close>

fun reset_loop :: "MagnetController \<Rightarrow> nat list \<Rightarrow> MagnetController" where
  "reset_loop c [] = c"
| "reset_loop c (i # rest) = reset_loop (snd (magnet_in c (int i))) rest"

definition reset :: "DiffuserEnv \<Rightarrow> real list list
    \<Rightarrow> py_error + ((real list list \<times> bool list) \<times> DiffuserEnv)" where
  "reset e observation =
     (let e' = e\<lparr>controller := reset_loop (controller e) [0..<9],
                 magnet_states := replicate (length (magnet_states e)) 0,
                 current_step := 0\<rparr>
      in case action_masks e' of
           Inl err \<Rightarrow> Inl err
         | Inr info \<Rightarrow> Inr ((observation, info), e'))"

text \<open>
  \<open>step\<close> returns (observation, reward, terminated, truncated, mask) and the
  environment afterwards.
\<close>

definition step :: "DiffuserEnv \<Rightarrow> int \<Rightarrow> real list list
    \<Rightarrow> py_error + ((real list list \<times> real option \<times> bool \<times> bool \<times> bool list) \<times> DiffuserEnv)" where
  "step e action observation =
     (case take_action e action of
        Inl err \<Rightarrow> Inl err
      | Inr e1 \<Rightarrow>
          (let reward = calculate_reward observation;
               e2 = e1\<lparr>current_step := current_step e1 + 1\<rparr>;
               terminated = False;
               truncated = (current_step e2 \<ge> max_steps e2)
           in case action_masks e2 of
                Inl err \<Rightarrow> Inl err
              | Inr info \<Rightarrow> Inr ((observation, reward, terminated, truncated, info), e2)))"

text \<open>
  An action is legal in an environment when it indexes a True entry of the mask
  computed there.
\<close>

definition legal :: "DiffuserEnv \<Rightarrow> int \<Rightarrow> bool" where
  "legal e a = (case action_masks e of
                  Inl err \<Rightarrow> False
                | Inr m \<Rightarrow> 0 \<le> a \<and> nat a < length m \<and> m ! nat a)"

text \<open>A sequence of calls, each with the observation the sensor delivers during it.\<close>

datatype env_call = Reset "real list list" | Step int "real list list"

fun run :: "DiffuserEnv \<Rightarrow> env_call list \<Rightarrow> DiffuserEnv option" where
  "run e [] = Some e"
| "run e (Reset obs # cs) =
     (case reset e obs of Inl err \<Rightarrow> None | Inr (out, e') \<Rightarrow> run e' cs)"
| "run e (Step a obs # cs) =
     (if legal e a
      then (case step e a obs of Inl err \<Rightarrow> None | Inr (out, e') \<Rightarrow> run e' cs)
      else None)"

section \<open>The replay memory (model.py, class ReplayBuffer)\<close>

text \<open>
  A stored transition: the flattened state, the action, the reward (\<open>None\<close> for nan),
  the flattened next state and the done flag.
\<close>

record transition =
  t_state :: "real list"
  t_action :: int
  t_reward :: "real option"
  t_next_state :: "real list"
  t_done :: bool

text \<open>
  \<open>deque(maxlen=capacity)\<close>: the bound and the contents, oldest first.  A negative bound
  is refused by the deque constructor.
\<close>

record ReplayBuffer =
  maxlen :: nat
  buffer :: "transition list"

definition ReplayBuffer_init :: "int \<Rightarrow> py_error + ReplayBuffer" where
  "ReplayBuffer_init capacity =
     (if capacity < 0 then Inl ValueError
      else Inr \<lparr>maxlen = nat capacity, buffer = []\<rparr>)"

text \<open>
  \<open>deque.append\<close> on a bounded deque: the item is added on the right, and if the deque
  is then longer than its bound the leftmost item is dropped.
\<close>

definition deque_append :: "nat \<Rightarrow> 'a list \<Rightarrow> 'a \<Rightarrow> 'a list" where
  "deque_append bound xs x =
     (let ys = xs @ [x] in if bound < length ys then tl ys else ys)"

text \<open>\<open>np.ravel\<close> of a frames-by-channels grid, row after row.\<close>

definition np_ravel :: "real list list \<Rightarrow> real list" where
  "np_ravel grid = concat grid"

definition push :: "ReplayBuffer \<Rightarrow> real list list \<Rightarrow> int \<Rightarrow> real option \<Rightarrow> real list list \<Rightarrow> bool
    \<Rightarrow> ReplayBuffer" where
  "push rb st act rew nxt dn =
     rb\<lparr>buffer := deque_append (maxlen rb) (buffer rb)
           \<lparr>t_state = np_ravel st, t_action = act, t_reward = rew,
            t_next_state = np_ravel nxt, t_done = dn\<rparr>\<rparr>"

text \<open>
  \<open>sample\<close>: \<open>random.sample\<close> refuses a negative size and a size beyond the population;
  what it draws otherwise is the parameter \<open>draw\<close>.  Unpacking the five columns of an
  empty batch raises ValueError.
\<close>

definition sample :: "(transition list \<Rightarrow> nat \<Rightarrow> transition list) \<Rightarrow> ReplayBuffer \<Rightarrow> int
    \<Rightarrow> py_error + (real list list \<times> int list \<times> real option list \<times> real list list \<times> bool list)" where
  "sample draw rb n =
     (if n < 0 \<or> int (length (buffer rb)) < n then Inl ValueError
      else (let batch = draw (buffer rb) (nat n)
            in if batch = [] then Inl ValueError
               else Inr (map t_state batch, map t_action batch, map t_reward batch,
                         map t_next_state batch, map t_done batch)))"

text \<open>One call of \<open>push\<close> with its five arguments, and a sequence of such calls.\<close>

type_synonym push_args = "real list list \<times> int \<times> real option \<times> real list list \<times> bool"

definition stored :: "push_args \<Rightarrow> transition" where
  "stored p = (case p of (st, act, rew, nxt, dn) \<Rightarrow>
     \<lparr>t_state = np_ravel st, t_action = act, t_reward = rew,
      t_next_state = np_ravel nxt, t_done = dn\<rparr>)"

definition push_call :: "ReplayBuffer \<Rightarrow> push_args \<Rightarrow> ReplayBuffer" where
  "push_call rb p = (case p of (st, act, rew, nxt, dn) \<Rightarrow> push rb st act rew nxt dn)"

definition push_all :: "ReplayBuffer \<Rightarrow> push_args list \<Rightarrow> ReplayBuffer" where
  "push_all rb ps = foldl push_call rb ps"

section \<open>The value agent (model.py, class DQNAgent)\<close>

subsection \<open>Scores\<close>

text \<open>
  An entry of the score tensor.  The source itself stores negative infinity there, so
  the values are those of a float: the two infinities, nan and the finite values (taken
  from the reals, which contain every finite float with the same order).
\<close>

datatype score = NegInf | Fin real | PosInf | NaN

fun isnan :: "score \<Rightarrow> bool" where
  "isnan NaN = True"
| "isnan _ = False"

text \<open>The comparison \<open>a > b\<close> of floats: false whenever an operand is nan.\<close>

fun score_gt :: "score \<Rightarrow> score \<Rightarrow> bool" where
  "score_gt NaN b = False"
| "score_gt a NaN = False"
| "score_gt NegInf b = False"
| "score_gt (Fin x) NegInf = True"
| "score_gt (Fin x) (Fin y) = (y < x)"
| "score_gt (Fin x) PosInf = False"
| "score_gt PosInf PosInf = False"
| "score_gt PosInf b = True"

text \<open>
  \<open>argmax\<close> of a tensor, as the library computes it: a scan that keeps the best entry
  so far and replaces it only by a strictly better one, where nan is better than every
  number.  So the result is the first nan if there is one, else the first maximal entry.
  An empty tensor has no argmax.
\<close>

fun argmax_from :: "nat \<Rightarrow> score \<Rightarrow> nat \<Rightarrow> score list \<Rightarrow> nat" where
  "argmax_from best_i best_v i [] = best_i"
| "argmax_from best_i best_v i (x # xs) =
     (if \<not> isnan best_v \<and> (isnan x \<or> score_gt x best_v)
      then argmax_from i x (Suc i) xs
      else argmax_from best_i best_v (Suc i) xs)"

definition argmax :: "score list \<Rightarrow> py_error + nat" where
  "argmax qs = (case qs of [] \<Rightarrow> Inl RuntimeError | q # rest \<Rightarrow> Inr (argmax_from 0 q 1 rest))"

text \<open>
  \<open>q_values[0, ~action_mask] = -float('inf')\<close>: a boolean index of another length than
  the row is refused.
\<close>

definition masked_fill :: "score list \<Rightarrow> bool list \<Rightarrow> py_error + score list" where
  "masked_fill q_values action_mask =
     (if length action_mask \<noteq> length q_values then Inl IndexError
      else Inr (map2 (\<lambda>q legal_here. if \<not> legal_here then NegInf else q) q_values action_mask))"

text \<open>\<open>np.where(action_mask)[0]\<close>: the indices of the True entries, ascending.\<close>

definition np_where :: "bool list \<Rightarrow> nat list" where
  "np_where action_mask = filter (\<lambda>i. action_mask ! i) [0..<length action_mask]"

text \<open>
  \<open>random.choice\<close>: IndexError on an empty sequence, else the element at the drawn
  position (the draw is reduced below the length, as the generator does).
\<close>

definition random_choice :: "nat \<Rightarrow> 'a list \<Rightarrow> py_error + 'a" where
  "random_choice drawn xs =
     (if xs = [] then Inl IndexError else Inr (xs ! (drawn mod length xs)))"

subsection \<open>The agent\<close>

text \<open>
  Each parameter set is the list of its tensors, each tensor flattened; parameter values
  are exact reals.  The optimizer's own state has the type \<open>'o\<close>.
\<close>

record 'o DQNAgent =
  state_dim :: int
  action_dim :: int
  batch_size :: int
  gamma :: real
  tau :: real
  policy_net :: "real list list"
  target_net :: "real list list"
  optimizer :: 'o
  replay_buffer :: ReplayBuffer

text \<open>
  The constructor, for the initial parameters and optimizer state that the library
  produces: the target set starts as a copy of the policy set.
\<close>

definition DQNAgent_init :: "real list list \<Rightarrow> 'o \<Rightarrow> int \<Rightarrow> int \<Rightarrow> int \<Rightarrow> int \<Rightarrow> real \<Rightarrow> real
    \<Rightarrow> py_error + 'o DQNAgent" where
  "DQNAgent_init params0 opt0 sdim adim capacity bsize gam ta =
     (case ReplayBuffer_init capacity of
        Inl err \<Rightarrow> Inl err
      | Inr rb \<Rightarrow> Inr \<lparr>state_dim = sdim, action_dim = adim, batch_size = bsize, gamma = gam,
                       tau = ta, policy_net = params0, target_net = params0, optimizer = opt0,
                       replay_buffer = rb\<rparr>)"

text \<open>
  \<open>select_action\<close>.  The function approximator is the parameter \<open>qnet\<close>, from a
  parameter set and a flattened state to one score per action; \<open>rnd\<close> is the value of
  \<open>random.random()\<close> and \<open>drawn\<close> the position that \<open>random.choice\<close> draws.  The
  result is the returned action (or the exception) and the agent afterwards.
\<close>

definition select_action :: "(real list list \<Rightarrow> real list \<Rightarrow> score list) \<Rightarrow> real \<Rightarrow> nat
    \<Rightarrow> 'o DQNAgent \<Rightarrow> real list list \<Rightarrow> real \<Rightarrow> bool list \<Rightarrow> (py_error + int) \<times> 'o DQNAgent" where
  "select_action qnet rnd drawn agent st epsilon action_mask =
     (let flat = np_ravel st
      in if rnd > epsilon
         then (let q_values = qnet (policy_net agent) flat
               in case masked_fill q_values action_mask of
                    Inl err \<Rightarrow> (Inl err, agent)
                  | Inr q_masked \<Rightarrow>
                      (case argmax q_masked of
                         Inl err \<Rightarrow> (Inl err, agent)
                       | Inr a \<Rightarrow> (Inr (int a), agent)))
         else (let valid_actions = np_where action_mask
               in (case random_choice drawn valid_actions of
                     Inl err \<Rightarrow> (Inl err, agent)
                   | Inr a \<Rightarrow> (Inr (int a), agent))))"

text \<open>
  \<open>_soft_update_target_net\<close>: the loop runs over the zipped parameter lists, so target
  tensors beyond the policy list are left alone; the elementwise expression needs tensors
  of one shape (both networks are built by the same constructor) and raises otherwise.
\<close>

definition interpolate :: "real \<Rightarrow> real list \<Rightarrow> real list \<Rightarrow> real list" where
  "interpolate ta target_param policy_param =
     map2 (\<lambda>t p. ta * p + (1 - ta) * t) target_param policy_param"

fun soft_update :: "real \<Rightarrow> real list list \<Rightarrow> real list list \<Rightarrow> py_error + real list list" where
  "soft_update ta [] policy = Inr []"
| "soft_update ta (t # ts) [] = Inr (t # ts)"
| "soft_update ta (t # ts) (p # ps) =
     (if length t \<noteq> length p then Inl RuntimeError
      else (case soft_update ta ts ps of
              Inl err \<Rightarrow> Inl err
            | Inr ts' \<Rightarrow> Inr (interpolate ta t p # ts')))"

definition soft_update_target_net :: "'o DQNAgent \<Rightarrow> py_error + 'o DQNAgent" where
  "soft_update_target_net agent =
     (case soft_update (tau agent) (target_net agent) (policy_net agent) of
        Inl err \<Rightarrow> Inl err
      | Inr target' \<Rightarrow> Inr (agent\<lparr>target_net := target'\<rparr>))"

text \<open>
  \<open>update_model\<close>.  The training step between sampling and the soft update (the loss of
  the batch, its gradient, the optimizer step) is the parameter \<open>train\<close>: from the
  optimizer state, both parameter sets, the discount and the batch it gives the loss, the
  new optimizer state and the new policy parameters, or raises.  The result is the
  returned value, \<open>None\<close> for Python's None, and the agent afterwards.
\<close>

type_synonym batch = "real list list \<times> int list \<times> real option list \<times> real list list \<times> bool list"

type_synonym 'o train_step =
  "'o \<Rightarrow> real list list \<Rightarrow> real list list \<Rightarrow> real \<Rightarrow> batch \<Rightarrow> py_error + (real \<times> 'o \<times> real list list)"

definition update_model :: "'o train_step \<Rightarrow> (transition list \<Rightarrow> nat \<Rightarrow> transition list)
    \<Rightarrow> 'o DQNAgent \<Rightarrow> py_error + (real option \<times> 'o DQNAgent)" where
  "update_model train draw agent =
     (if int (length (buffer (replay_buffer agent))) < batch_size agent then Inr (None, agent)
      else (case sample draw (replay_buffer agent) (batch_size agent) of
              Inl err \<Rightarrow> Inl err
            | Inr b \<Rightarrow>
                (case train (optimizer agent) (policy_net agent) (target_net agent) (gamma agent) b of
                   Inl err \<Rightarrow> Inl err
                 | Inr (loss, opt', policy') \<Rightarrow>
                     (case soft_update_target_net (agent\<lparr>optimizer := opt', policy_net := policy'\<rparr>) of
                        Inl err \<Rightarrow> Inl err
                      | Inr agent' \<Rightarrow> Inr (Some loss, agent')))))"

section \<open>Notions used in the statements\<close>

text \<open>
  The mask as a function of the recorded actuator states: the retract entries, the extend
  entries, the no-op entry.
\<close>

definition mask_of :: "int list \<Rightarrow> bool list" where
  "mask_of ms = map (\<lambda>x. x \<noteq> 0) ms @ map (\<lambda>x. x = 0) ms @ [False]"

text \<open>The invariant of the environment: nine recorded states, each 0 or 1.\<close>

definition env_inv :: "DiffuserEnv \<Rightarrow> bool" where
  "env_inv e = (length (magnet_states e) = 9 \<and> (\<forall>x\<in>set (magnet_states e). x = 0 \<or> x = 1))"

text \<open>A controller with an open link on which nothing has been written yet.\<close>

definition connected_controller :: MagnetController where
  "connected_controller = \<lparr>is_connected = True, serial_conn = Some \<lparr>is_open = True, written = []\<rparr>\<rparr>"

text \<open>
  The environment after \<open>reset\<close> and the step that extends actuator 0, started from the
  constructor's state with that controller: nine retract commands and one extend command
  have been written.
\<close>

definition env_after_extend_0 :: DiffuserEnv where
  "env_after_extend_0 = \<lparr>controller = \<lparr>is_connected = True, serial_conn = Some \<lparr>is_open = True,
      written = [170,85,10,10, 170,85,11,10, 170,85,12,10, 170,85,13,10, 170,85,14,10,
                 170,85,15,10, 170,85,16,10, 170,85,17,10, 170,85,18,10, 170,85,10,11]\<rparr>\<rparr>,
     magnet_states = [1,0,0,0,0,0,0,0,0], current_step = 1, max_steps = 1000\<rparr>"




text \<open>An agent, a training step and a sequence of pushes to evaluate the agent on.\<close>

definition example_transition :: transition where
  "example_transition = \<lparr>t_state = [1, 2, 3], t_action = 9, t_reward = Some 5,
     t_next_state = [2, 2, 2], t_done = False\<rparr>"

definition example_agent :: "unit DQNAgent" where
  "example_agent = \<lparr>state_dim = 3, action_dim = 19, batch_size = 1, gamma = 99 / 100, tau = 1,
     policy_net = [ [1, 2], [3] ], target_net = [ [0, 0], [0] ], optimizer = (),
     replay_buffer = \<lparr>maxlen = 10, buffer = [example_transition]\<rparr>\<rparr>"

definition example_train :: "unit train_step" where
  "example_train opt policy target gam b = Inr (1 / 2, opt, map (map (\<lambda>w. w + 1)) policy)"

definition example_pushes :: "push_args list" where
  "example_pushes = [([ [1, 1, 1] ], 9, Some 1, [ [1, 2, 3] ], False),
                     ([ [1, 2, 3] ], 10, Some 2, [ [2, 2, 2] ], False),
                     ([ [2, 2, 2] ], 0, Some 3, [ [4, 4, 4] ], True)]"

section \<open>The legality mask and the state transition\<close>

lemma mask_loop_char:
  "\<forall>i\<in>set ids. i < length ms \<Longrightarrow>
   \<exists>m'. mask_loop ms ids m = Inr m' \<and> length m' = length m \<and>
     (\<forall>j<length m. m' ! j = (m ! j \<and> \<not> (j \<in> set ids \<and> ms ! j = 0)
                              \<and> \<not> (\<exists>i\<in>set ids. j = i + 9 \<and> ms ! i \<noteq> 0)))"
proof (induction ids arbitrary: m)
  case Nil
  then show ?case by simp
next
  case (Cons i rest)
  then have rest: "\<forall>i\<in>set rest. i < length ms" and i: "i < length ms" by simp_all
  show ?case
  proof (cases "ms ! i = 0")
    case True
    from Cons.IH[OF rest, of "m[i := False]"] obtain m' where
      m': "mask_loop ms rest (m[i := False]) = Inr m'" "length m' = length m"
        "\<forall>j<length m. m' ! j = ((m[i := False]) ! j \<and> \<not> (j \<in> set rest \<and> ms ! j = 0)
                              \<and> \<not> (\<exists>i\<in>set rest. j = i + 9 \<and> ms ! i \<noteq> 0))"
      by auto
    have "\<forall>j<length m. m' ! j = (m ! j \<and> \<not> (j \<in> set (i # rest) \<and> ms ! j = 0)
                              \<and> \<not> (\<exists>k\<in>set (i # rest). j = k + 9 \<and> ms ! k \<noteq> 0))"
    proof (intro allI impI)
      fix j assume j: "j < length m"
      show "m' ! j = (m ! j \<and> \<not> (j \<in> set (i # rest) \<and> ms ! j = 0)
                              \<and> \<not> (\<exists>k\<in>set (i # rest). j = k + 9 \<and> ms ! k \<noteq> 0))"
        using m'(3)[rule_format, OF j] j True
        by (cases "j = i") (auto simp: nth_list_update)
    qed
    then show ?thesis
      using m'(1,2) i True by (simp add: ACTION_IN_def)
  next
    case False
    from Cons.IH[OF rest, of "m[i + 9 := False]"] obtain m' where
      m': "mask_loop ms rest (m[i + 9 := False]) = Inr m'" "length m' = length m"
        "\<forall>j<length m. m' ! j = ((m[i + 9 := False]) ! j \<and> \<not> (j \<in> set rest \<and> ms ! j = 0)
                              \<and> \<not> (\<exists>i\<in>set rest. j = i + 9 \<and> ms ! i \<noteq> 0))"
      by auto
    have "\<forall>j<length m. m' ! j = (m ! j \<and> \<not> (j \<in> set (i # rest) \<and> ms ! j = 0)
                              \<and> \<not> (\<exists>k\<in>set (i # rest). j = k + 9 \<and> ms ! k \<noteq> 0))"
    proof (intro allI impI)
      fix j assume j: "j < length m"
      show "m' ! j = (m ! j \<and> \<not> (j \<in> set (i # rest) \<and> ms ! j = 0)
                              \<and> \<not> (\<exists>k\<in>set (i # rest). j = k + 9 \<and> ms ! k \<noteq> 0))"
        using m'(3)[rule_format, OF j] j False
        by (cases "j = i + 9") (auto simp: nth_list_update)
    qed
    then show ?thesis
      using m'(1,2) i False by (simp add: ACTION_IN_def)
  qed
qed

lemma action_masks_eq:
  assumes len: "length (magnet_states e) = 9"
  shows "action_masks e = Inr (mask_of (magnet_states e))"
proof -
  let ?ms = "magnet_states e"
  let ?m0 = "(replicate 19 True)[18 := False]"
  have "\<forall>i\<in>set [0..<9]. i < length ?ms" using len by simp
  from mask_loop_char[OF this, of ?m0] obtain m' where
    m': "mask_loop ?ms [0..<9] ?m0 = Inr m'" "length m' = 19"
      "\<forall>j<19. m' ! j = (?m0 ! j \<and> \<not> (j \<in> set [0..<9] \<and> ?ms ! j = 0)
                              \<and> \<not> (\<exists>i\<in>set [0..<9]. j = i + 9 \<and> ?ms ! i \<noteq> 0))"
    by auto
  have "m' = mask_of ?ms"
  proof (rule nth_equalityI)
    show "length m' = length (mask_of ?ms)" using m'(2) len by (simp add: mask_of_def)
  next
    fix j assume "j < length m'"
    then have j: "j < 19" using m'(2) by simp
    consider "j < 9" | "9 \<le> j" "j < 18" | "j = 18" using j by linarith
    then show "m' ! j = mask_of ?ms ! j"
    proof cases
      case 1
      then show ?thesis using m'(3) j len
        by (auto simp: mask_of_def nth_append nth_list_update)
    next
      case 2
      then have "\<exists>i. j = i + 9 \<and> i < 9" by presburger
      then obtain i where i: "j = i + 9" "i < 9" by blast
      then show ?thesis using m'(3) j len
        by (auto simp: mask_of_def nth_append nth_list_update)
    next
      case 3
      then show ?thesis using m'(3) len
        by (auto simp: mask_of_def nth_append nth_list_update)
    qed
  qed
  then show ?thesis using m'(1) by (simp add: action_masks_def)
qed

lemma count_mask_of: "length (filter id (mask_of ms)) = length ms"
proof -
  have "length (filter id (map (\<lambda>x. x \<noteq> 0) ms)) = length (filter (\<lambda>x. x \<noteq> 0) ms)"
    by (simp add: filter_map comp_def)
  moreover have "length (filter id (map (\<lambda>x. x = 0) ms)) = length (filter (\<lambda>x. \<not> x \<noteq> 0) ms)"
    by (simp add: filter_map comp_def)
  ultimately show ?thesis
    using sum_length_filter_compl[of "\<lambda>x. x \<noteq> 0" ms] by (simp add: mask_of_def)
qed

lemma take_action_inv:
  assumes "env_inv e" "take_action e a = Inr e'"
  shows "env_inv e'"
proof (cases "a = 18")
  case True
  then show ?thesis using assms by (simp add: take_action_def)
next
  case False
  let ?move = "if a \<ge> 9 then ACTION_OUT else ACTION_IN"
  have mv: "?move = 0 \<or> ?move = 1" by (simp add: ACTION_IN_def ACTION_OUT_def)
  have "magnet_states e' = magnet_states e \<or>
        magnet_states e' = (magnet_states e)[nat (a mod 9) := ?move]"
    using assms(2) False
    by (auto simp: take_action_def Let_def split: if_splits prod.splits)
  then show ?thesis
  proof
    assume "magnet_states e' = magnet_states e"
    then show ?thesis using assms(1) by (simp add: env_inv_def)
  next
    assume upd: "magnet_states e' = (magnet_states e)[nat (a mod 9) := ?move]"
    have "set (magnet_states e') \<subseteq> insert ?move (set (magnet_states e))"
      unfolding upd by (rule set_update_subset_insert)
    then show ?thesis using assms(1) mv upd by (auto simp: env_inv_def)
  qed
qed

lemma take_action_total:
  assumes "length (magnet_states e) = 9"
  shows "\<exists>e'. take_action e a = Inr e'"
proof -
  have "0 \<le> a mod 9" "a mod 9 < 9" by simp_all
  then have "nat (a mod 9) < length (magnet_states e)" using assms by linarith
  then show ?thesis
    by (auto simp: take_action_def Let_def split: prod.splits)
qed

lemma reset_result:
  assumes "length (magnet_states e) = 9"
  shows "reset e obs = Inr ((obs, mask_of (replicate 9 0)),
           e\<lparr>controller := reset_loop (controller e) [0..<9],
             magnet_states := replicate 9 0, current_step := 0\<rparr>)"
proof -
  let ?e' = "e\<lparr>controller := reset_loop (controller e) [0..<9],
             magnet_states := replicate (length (magnet_states e)) 0, current_step := 0\<rparr>"
  have "length (magnet_states ?e') = 9" using assms by simp
  from action_masks_eq[OF this] show ?thesis using assms by (simp add: reset_def)
qed

lemma reset_inv:
  assumes "length (magnet_states e) = 9" "reset e obs = Inr (out, e')"
  shows "env_inv e'"
  using assms(2) unfolding reset_result[OF assms(1)] by (auto simp: env_inv_def)

lemma step_result:
  assumes "step e a obs = Inr (out, e')"
  shows "\<exists>e1. take_action e a = Inr e1 \<and> e' = e1\<lparr>current_step := current_step e1 + 1\<rparr>"
  using assms by (auto simp: step_def Let_def split: sum.splits)

lemma step_inv:
  assumes "env_inv e" "step e a obs = Inr (out, e')"
  shows "env_inv e'"
proof -
  from step_result[OF assms(2)] obtain e1 where
    e1: "take_action e a = Inr e1" "e' = e1\<lparr>current_step := current_step e1 + 1\<rparr>" by blast
  from take_action_inv[OF assms(1) e1(1)] show ?thesis using e1(2) by (simp add: env_inv_def)
qed

lemma step_total:
  assumes "length (magnet_states e) = 9"
  shows "\<exists>out e'. step e a obs = Inr (out, e')"
proof -
  from take_action_total[OF assms] obtain e1 where e1: "take_action e a = Inr e1" by blast
  have "length (magnet_states e1) = 9"
    using e1 assms by (auto simp: take_action_def Let_def split: if_splits prod.splits)
  then have "length (magnet_states (e1\<lparr>current_step := current_step e1 + 1\<rparr>)) = 9" by simp
  from action_masks_eq[OF this] show ?thesis using e1 by (auto simp: step_def Let_def)
qed

lemma run_inv:
  "env_inv e \<Longrightarrow> run e cs = Some e' \<Longrightarrow> env_inv e'"
proof (induction cs arbitrary: e)
  case Nil
  then show ?case by simp
next
  case (Cons c cs)
  show ?case
  proof (cases c)
    case (Reset obs)
    with Cons.prems(2) obtain out e1 where r: "reset e obs = Inr (out, e1)" "run e1 cs = Some e'"
      by (auto split: sum.splits)
    have "env_inv e1" using reset_inv[OF _ r(1)] Cons.prems(1) by (simp add: env_inv_def)
    then show ?thesis using Cons.IH r(2) by blast
  next
    case (Step a obs)
    with Cons.prems(2) obtain out e1 where r: "step e a obs = Inr (out, e1)" "run e1 cs = Some e'"
      by (auto split: sum.splits if_splits)
    have "env_inv e1" using step_inv[OF Cons.prems(1) r(1)] .
    then show ?thesis using Cons.IH r(2) by blast
  qed
qed

lemma init_inv: "env_inv (DiffuserEnv_init c)"
  by (simp add: env_inv_def DiffuserEnv_init_def)

lemma mask_of_props:
  assumes "length ms = 9"
  shows "length (mask_of ms) = 19" "\<not> mask_of ms ! 18"
    "\<And>i. i < 9 \<Longrightarrow> mask_of ms ! i = (ms ! i \<noteq> 0)"
    "\<And>i. i < 9 \<Longrightarrow> mask_of ms ! (i + 9) = (ms ! i = 0)"
  using assms by (simp_all add: mask_of_def nth_append)

lemma replicate_9: "replicate 9 x = [x, x, x, x, x, x, x, x, x]"
  by (simp add: eval_nat_numeral)

lemma step_eq:
  assumes "take_action e a = Inr e1" "length (magnet_states e1) = 9"
  shows "step e a obs = Inr ((obs, calculate_reward obs, False,
            max_steps e1 \<le> current_step e1 + 1, mask_of (magnet_states e1)),
           e1\<lparr>current_step := current_step e1 + 1\<rparr>)"
proof -
  have "action_masks (e1\<lparr>current_step := current_step e1 + 1\<rparr>) = Inr (mask_of (magnet_states e1))"
    using action_masks_eq[of "e1\<lparr>current_step := current_step e1 + 1\<rparr>"] assms(2) by simp
  then show ?thesis using assms(1) by (simp add: step_def Let_def)
qed

text \<open>
  Claim C1.  In every environment reached from the constructor's state by a sequence of
  \<open>reset\<close> calls and \<open>step\<close> calls with legal actions, \<open>action_masks\<close> returns a mask
  of 19 entries of which exactly 9 are True; the no-op entry 18 is False; and for each
  actuator exactly one of its two entries is True, the one whose direction differs from
  the recorded state: retract when it is extended, extend when it is retracted.
\<close>

theorem legality_mask_invariant:
  assumes "run (DiffuserEnv_init c) calls = Some e"
  shows "\<exists>m. action_masks e = Inr m \<and> length m = 19 \<and> length (filter id m) = 9 \<and> \<not> m ! 18
           \<and> (\<forall>i<9. m ! i = (magnet_states e ! i = ACTION_OUT)
                   \<and> m ! (i + 9) = (magnet_states e ! i = ACTION_IN)
                   \<and> m ! i \<noteq> m ! (i + 9))"
proof -
  have inv: "env_inv e" using run_inv[OF init_inv assms] .
  then have len: "length (magnet_states e) = 9" by (simp add: env_inv_def)
  have bin: "\<And>i. i < 9 \<Longrightarrow> magnet_states e ! i = 0 \<or> magnet_states e ! i = 1"
    using inv by (simp add: env_inv_def)
  have "\<forall>i<9. mask_of (magnet_states e) ! i = (magnet_states e ! i = ACTION_OUT)
                   \<and> mask_of (magnet_states e) ! (i + 9) = (magnet_states e ! i = ACTION_IN)
                   \<and> mask_of (magnet_states e) ! i \<noteq> mask_of (magnet_states e) ! (i + 9)"
  proof (intro allI impI)
    fix i :: nat assume i: "i < 9"
    show "mask_of (magnet_states e) ! i = (magnet_states e ! i = ACTION_OUT)
                   \<and> mask_of (magnet_states e) ! (i + 9) = (magnet_states e ! i = ACTION_IN)
                   \<and> mask_of (magnet_states e) ! i \<noteq> mask_of (magnet_states e) ! (i + 9)"
      using bin[OF i] mask_of_props(3,4)[OF len i]
      by (auto simp: ACTION_IN_def ACTION_OUT_def)
  qed
  moreover have "length (filter id (mask_of (magnet_states e))) = 9"
    using count_mask_of[of "magnet_states e"] len by simp
  ultimately show ?thesis
    using action_masks_eq[OF len] mask_of_props(1,2)[OF len] by blast
qed

theorem legality_mask_invariant_witness:
  "run (DiffuserEnv_init connected_controller) [Reset [ [1, 1, 1] ], Step 9 [ [1, 2, 3] ] ]
      = Some env_after_extend_0
   \<and> (\<exists>m. action_masks env_after_extend_0 = Inr m \<and> length m = 19 \<and> length (filter id m) = 9 \<and> \<not> m ! 18
           \<and> (\<forall>i<9. m ! i = (magnet_states env_after_extend_0 ! i = ACTION_OUT)
                   \<and> m ! (i + 9) = (magnet_states env_after_extend_0 ! i = ACTION_IN)
                   \<and> m ! i \<noteq> m ! (i + 9)))"
proof -
  have h: "run (DiffuserEnv_init connected_controller) [Reset [ [1, 1, 1] ], Step 9 [ [1, 2, 3] ] ]
             = Some env_after_extend_0"
    by (simp add: replicate_9 DiffuserEnv_init_def connected_controller_def env_after_extend_0_def reset_def
        step_def legal_def action_masks_def take_action_def send_command_def magnet_in_def upt_rec
        ACTION_IN_def ACTION_OUT_def HEADER1_def HEADER2_def OFFSET_def Let_def)
  from h legality_mask_invariant[OF h] show ?thesis by (rule conjI)
qed

text \<open>
  Claim C9.  From any environment with nine recorded states, \<open>reset\<close> returns the mask
  in which the nine retract entries are False and the nine extend entries True, with all
  states 0; action 9 is legal there, and \<open>step\<close> with action 9 records actuator 0 as
  extended and returns a mask in which entry 9 is False, entry 0 is True and both entries
  of every other actuator, and the no-op entry, are as before.
\<close>

theorem reset_then_extend_actuator_0:
  assumes "length (magnet_states e) = 9"
  shows "\<exists>e1 e2 r t m1 m2.
       reset e obs0 = Inr ((obs0, m1), e1)
     \<and> magnet_states e1 = replicate 9 0
     \<and> m1 = replicate 9 False @ replicate 9 True @ [False]
     \<and> legal e1 9
     \<and> step e1 9 obs1 = Inr ((obs1, r, False, t, m2), e2)
     \<and> magnet_states e2 = 1 # replicate 8 0
     \<and> \<not> m2 ! 9 \<and> m2 ! 0
     \<and> (\<forall>i. 1 \<le> i \<and> i < 9 \<longrightarrow> m2 ! i = m1 ! i \<and> m2 ! (i + 9) = m1 ! (i + 9))
     \<and> m2 ! 18 = m1 ! 18"
proof -
  define e1 where "e1 = e\<lparr>controller := reset_loop (controller e) [0..<9],
               magnet_states := replicate 9 0, current_step := 0\<rparr>"
  define m1 where "m1 = replicate 9 False @ replicate 9 True @ [False]"
  obtain ok c' where sc: "send_command (controller e1) 0 ACTION_OUT = (ok, c')"
    by (cases "send_command (controller e1) 0 ACTION_OUT") blast
  define ea where "ea = e1\<lparr>controller := c', magnet_states := (replicate 9 0)[0 := 1]\<rparr>"
  define e2 where "e2 = ea\<lparr>current_step := current_step ea + 1\<rparr>"
  define m2 where "m2 = mask_of ((replicate 9 0)[0 := 1])"
  have m1: "mask_of (replicate 9 0) = m1"
    by (simp add: mask_of_def m1_def)
  have ms1: "magnet_states e1 = replicate 9 0" by (simp add: e1_def)
  have r: "reset e obs0 = Inr ((obs0, m1), e1)"
    using reset_result[OF assms, of obs0] by (simp only: m1 e1_def)
  have am1: "action_masks e1 = Inr m1"
    using action_masks_eq[of e1] ms1 m1 by simp
  have lg: "legal e1 9"
    by (simp add: legal_def am1 m1_def nth_append)
  have ta: "take_action e1 9 = Inr ea"
    using sc ms1 by (simp add: take_action_def ACTION_OUT_def ACTION_IN_def ea_def)
  have msa: "magnet_states ea = (replicate 9 0)[0 := 1]" by (simp add: ea_def)
  have st: "step e1 9 obs1
      = Inr ((obs1, calculate_reward obs1, False, max_steps ea \<le> current_step ea + 1, m2), e2)"
    using step_eq[OF ta, of obs1] msa by (simp add: m2_def e2_def)
  have ms2: "magnet_states e2 = 1 # replicate 8 0"
    by (simp add: e2_def msa eval_nat_numeral)
  have p1: "\<not> m2 ! 9" "m2 ! 0" "m2 ! 18 = m1 ! 18"
    by (simp_all add: replicate_9 mask_of_def m2_def m1_def)
  have p2: "\<forall>i. 1 \<le> i \<and> i < 9 \<longrightarrow> m2 ! i = m1 ! i \<and> m2 ! (i + 9) = m1 ! (i + 9)"
  proof (intro allI impI)
    fix i :: nat assume i: "1 \<le> i \<and> i < 9"
    then have "i < 9" "i \<noteq> 0" by simp_all
    then show "m2 ! i = m1 ! i \<and> m2 ! (i + 9) = m1 ! (i + 9)"
      using mask_of_props(3,4)[of "(replicate 9 0)[0 := 1]" i]
            mask_of_props(3,4)[of "replicate 9 0" i]
      unfolding m2_def m1[symmetric] by simp
  qed
  have "reset e obs0 = Inr ((obs0, m1), e1)
     \<and> magnet_states e1 = replicate 9 0
     \<and> m1 = replicate 9 False @ replicate 9 True @ [False]
     \<and> legal e1 9
     \<and> step e1 9 obs1 = Inr ((obs1, calculate_reward obs1, False,
                                max_steps ea \<le> current_step ea + 1, m2), e2)
     \<and> magnet_states e2 = 1 # replicate 8 0
     \<and> \<not> m2 ! 9 \<and> m2 ! 0
     \<and> (\<forall>i. 1 \<le> i \<and> i < 9 \<longrightarrow> m2 ! i = m1 ! i \<and> m2 ! (i + 9) = m1 ! (i + 9))
     \<and> m2 ! 18 = m1 ! 18"
    using r ms1 m1_def lg st ms2 p1 p2 by (intro conjI)
  then show ?thesis by blast
qed

theorem reset_then_extend_actuator_0_witness:
  "length (magnet_states (DiffuserEnv_init connected_controller)) = 9
   \<and> (\<exists>e1 e2 r t m1 m2.
       reset (DiffuserEnv_init connected_controller) [ [1, 1, 1] ] = Inr (([ [1, 1, 1] ], m1), e1)
     \<and> magnet_states e1 = replicate 9 0
     \<and> m1 = replicate 9 False @ replicate 9 True @ [False]
     \<and> legal e1 9
     \<and> step e1 9 [ [1, 2, 3] ] = Inr (([ [1, 2, 3] ], r, False, t, m2), e2)
     \<and> magnet_states e2 = 1 # replicate 8 0
     \<and> \<not> m2 ! 9 \<and> m2 ! 0
     \<and> (\<forall>i. 1 \<le> i \<and> i < 9 \<longrightarrow> m2 ! i = m1 ! i \<and> m2 ! (i + 9) = m1 ! (i + 9))
     \<and> m2 ! 18 = m1 ! 18)"
proof -
  have h: "length (magnet_states (DiffuserEnv_init connected_controller)) = 9"
    by (simp add: DiffuserEnv_init_def)
  from h reset_then_extend_actuator_0[OF h, of "[ [1, 1, 1] ]" "[ [1, 2, 3] ]"] show ?thesis
    by (rule conjI)
qed

section \<open>Action values outside the encoding\<close>




section \<open>The replay memory\<close>

lemma deque_append_drop:
  "deque_append c (drop (length xs - c) xs) x = drop (length (xs @ [x]) - c) (xs @ [x])"
proof (cases "c \<le> length xs")
  case True
  then have len: "length (drop (length xs - c) xs) = c" by simp
  have "deque_append c (drop (length xs - c) xs) x = tl (drop (length xs - c) xs @ [x])"
    using len by (simp add: deque_append_def Let_def)
  also have "\<dots> = drop 1 (drop (length xs - c) xs @ [x])"
    by (simp only: One_nat_def drop_Suc drop_0)
  also have "drop (length xs - c) xs @ [x] = drop (length xs - c) (xs @ [x])"
    by simp
  also have "drop 1 (drop (length xs - c) (xs @ [x])) = drop (1 + (length xs - c)) (xs @ [x])"
    by (simp only: drop_drop)
  also have "1 + (length xs - c) = length (xs @ [x]) - c"
    using True by simp
  finally show ?thesis .
next
  case False
  then show ?thesis by (simp add: deque_append_def Let_def)
qed

lemma push_call_buffer:
  "buffer (push_call rb p) = deque_append (maxlen rb) (buffer rb) (stored p)"
  by (cases p) (simp add: push_call_def push_def stored_def)

lemma push_call_maxlen: "maxlen (push_call rb p) = maxlen rb"
  by (cases p) (simp add: push_call_def push_def)

lemma push_all_snoc: "push_all rb (ps @ [p]) = push_call (push_all rb ps) p"
  by (simp add: push_all_def)

lemma push_all_maxlen: "maxlen (push_all rb ps) = maxlen rb"
  by (induction ps rule: rev_induct) (simp_all add: push_all_snoc push_call_maxlen, simp add: push_all_def)

lemma push_all_buffer:
  "buffer rb = [] \<Longrightarrow>
   buffer (push_all rb ps) = drop (length ps - maxlen rb) (map stored ps)"
proof (induction ps rule: rev_induct)
  case Nil
  then show ?case by (simp add: push_all_def)
next
  case (snoc p ps)
  have "buffer (push_all rb (ps @ [p]))
        = deque_append (maxlen rb) (drop (length (map stored ps) - maxlen rb) (map stored ps)) (stored p)"
    using snoc by (simp add: push_all_snoc push_call_buffer push_all_maxlen)
  also have "\<dots> = drop (length (map stored ps @ [stored p]) - maxlen rb) (map stored ps @ [stored p])"
    by (rule deque_append_drop)
  finally show ?case by simp
qed

lemma take_drop_disjoint:
  "distinct xs \<Longrightarrow> set (take k xs) \<inter> set (drop k xs) = {}"
  using distinct_append[of "take k xs" "drop k xs"] by simp

text \<open>
  Claim C5.  For a buffer built with capacity \<open>c\<close> and any sequence of pushes, the
  contents are the last \<open>c\<close> pushed transitions in their order, so never more than \<open>c\<close>;
  after \<open>c + k\<close> pushes the contents are the pushed sequence without its first \<open>k\<close>
  transitions, \<open>c\<close> of them; when the pushed transitions are pairwise different none
  of the first \<open>k\<close> is in the buffer; and the \<open>k\<close> most recent are in the buffer
  whenever \<open>k\<close> is at most \<open>c\<close> (the \<open>c\<close> most recent always are).
\<close>

theorem replay_buffer_ring:
  assumes "ReplayBuffer_init c = Inr rb0"
  shows "buffer (push_all rb0 ps) = drop (length ps - nat c) (map stored ps)
       \<and> length (buffer (push_all rb0 ps)) \<le> nat c
       \<and> (\<forall>k. length ps = nat c + k \<longrightarrow>
             buffer (push_all rb0 ps) = drop k (map stored ps)
           \<and> length (buffer (push_all rb0 ps)) = nat c
           \<and> (distinct (map stored ps) \<longrightarrow>
                set (take k (map stored ps)) \<inter> set (buffer (push_all rb0 ps)) = {})
           \<and> (k \<le> nat c \<longrightarrow>
                set (drop (nat c) (map stored ps)) \<subseteq> set (buffer (push_all rb0 ps))))"
proof -
  from assms have rb0: "maxlen rb0 = nat c" "buffer rb0 = []"
    by (auto simp: ReplayBuffer_init_def split: if_splits)
  have eq: "buffer (push_all rb0 ps) = drop (length ps - nat c) (map stored ps)"
    using push_all_buffer[OF rb0(2), of ps] rb0(1) by simp
  have le: "length (buffer (push_all rb0 ps)) \<le> nat c"
    unfolding eq by simp
  have rest: "\<forall>k. length ps = nat c + k \<longrightarrow>
             buffer (push_all rb0 ps) = drop k (map stored ps)
           \<and> length (buffer (push_all rb0 ps)) = nat c
           \<and> (distinct (map stored ps) \<longrightarrow>
                set (take k (map stored ps)) \<inter> set (buffer (push_all rb0 ps)) = {})
           \<and> (k \<le> nat c \<longrightarrow>
                set (drop (nat c) (map stored ps)) \<subseteq> set (buffer (push_all rb0 ps)))"
  proof (intro allI impI conjI)
    fix k assume k: "length ps = nat c + k"
    show b: "buffer (push_all rb0 ps) = drop k (map stored ps)"
      unfolding eq using k by simp
    show "length (buffer (push_all rb0 ps)) = nat c"
      unfolding b using k by simp
    show "set (take k (map stored ps)) \<inter> set (buffer (push_all rb0 ps)) = {}"
      if "distinct (map stored ps)"
      unfolding b using that by (rule take_drop_disjoint)
    show "set (drop (nat c) (map stored ps)) \<subseteq> set (buffer (push_all rb0 ps))"
      if "k \<le> nat c"
      unfolding b using that by (rule set_drop_subset_set_drop)
  qed
  show ?thesis
    by (intro conjI) (rule eq, rule le, rule rest)
qed

theorem replay_buffer_ring_witness:
  "ReplayBuffer_init 2 = Inr \<lparr>maxlen = 2, buffer = []\<rparr>
   \<and> length example_pushes = nat 2 + 1
   \<and> distinct (map stored example_pushes)
   \<and> buffer (push_all \<lparr>maxlen = 2, buffer = []\<rparr> example_pushes)
        = drop 1 (map stored example_pushes)
   \<and> length (buffer (push_all \<lparr>maxlen = 2, buffer = []\<rparr> example_pushes)) = nat 2
   \<and> set (take 1 (map stored example_pushes))
        \<inter> set (buffer (push_all \<lparr>maxlen = 2, buffer = []\<rparr> example_pushes)) = {}
   \<and> set (drop (nat 2) (map stored example_pushes))
        \<subseteq> set (buffer (push_all \<lparr>maxlen = 2, buffer = []\<rparr> example_pushes))"
proof -
  have h: "ReplayBuffer_init 2 = Inr \<lparr>maxlen = 2, buffer = []\<rparr>"
    by (simp add: ReplayBuffer_init_def)
  have l: "length example_pushes = nat 2 + 1" by (simp add: example_pushes_def)
  have d: "distinct (map stored example_pushes)"
    by (simp add: example_pushes_def stored_def)
  have k: "(1::nat) \<le> nat 2" by simp
  note r = replay_buffer_ring[OF h, of example_pushes, THEN conjunct2, THEN conjunct2,
      THEN spec, of 1, THEN mp, OF l]
  note r1 = r[THEN conjunct1]
  note r2 = r[THEN conjunct2, THEN conjunct1]
  note r3 = r[THEN conjunct2, THEN conjunct2, THEN conjunct1, THEN mp, OF d]
  note r4 = r[THEN conjunct2, THEN conjunct2, THEN conjunct2, THEN mp, OF k]
  show ?thesis
    by (intro conjI) (rule h, rule l, rule d, rule r1, rule r2, rule r3, rule r4)
qed

section \<open>The value agent\<close>

text \<open>
  Claim C4.  When the replay buffer holds fewer transitions than \<open>batch_size\<close>,
  \<open>update_model\<close> returns None without raising, and the agent (policy parameters, target
  parameters, optimizer state, replay buffer) is unchanged.
\<close>

theorem update_model_insufficient:
  assumes "int (length (buffer (replay_buffer agent))) < batch_size agent"
  shows "update_model train draw agent = Inr (None, agent)"
  using assms by (simp add: update_model_def)

theorem update_model_insufficient_witness:
  "int (length (buffer (replay_buffer (example_agent\<lparr>batch_size := 64\<rparr>))))
      < batch_size (example_agent\<lparr>batch_size := 64\<rparr>)
   \<and> update_model example_train (\<lambda>xs n. take n xs) (example_agent\<lparr>batch_size := 64\<rparr>)
       = Inr (None, example_agent\<lparr>batch_size := 64\<rparr>)"
proof -
  have h: "int (length (buffer (replay_buffer (example_agent\<lparr>batch_size := 64\<rparr>))))
      < batch_size (example_agent\<lparr>batch_size := 64\<rparr>)"
    by (simp add: example_agent_def)
  from h update_model_insufficient[OF h, of example_train "\<lambda>xs n. take n xs"] show ?thesis
    by (rule conjI)
qed

text \<open>
  Claim C10.  \<open>select_action\<close> leaves the agent as it was, whatever the state, the
  exploration rate, the mask, the scores and the random draws, also when it raises.
\<close>

theorem select_action_frame:
  "snd (select_action qnet rnd drawn agent st epsilon action_mask) = agent"
  by (simp add: select_action_def Let_def split: sum.splits)






section \<open>Greedy selection under the mask\<close>

lemma argmax_from_bound:
  "best_i < i \<Longrightarrow> argmax_from best_i best_v i xs < i + length xs"
proof (induction xs arbitrary: best_i best_v i)
  case Nil
  then show ?case by simp
next
  case (Cons x xs)
  have a: "argmax_from i x (Suc i) xs < Suc i + length xs" by (rule Cons.IH) simp
  have b: "argmax_from best_i best_v (Suc i) xs < Suc i + length xs"
    by (rule Cons.IH) (use Cons.prems in simp)
  show ?case using a b by simp
qed

lemma NegInf_not_gt: "\<not> score_gt NegInf b"
  by (cases b) simp_all

lemma not_gt_NegInf: "\<not> isnan x \<Longrightarrow> \<not> score_gt x NegInf \<Longrightarrow> x = NegInf"
  by (cases x) simp_all

text \<open>pre is the scanned prefix, best_v its entry at best_i\<close>
lemma argmax_from_NegInf:
  assumes "length pre = i" "best_i < i" "pre ! best_i = best_v"
      and "best_v = NegInf \<longrightarrow> (\<forall>y\<in>set pre. y = NegInf)"
      and "(pre @ xs) ! argmax_from best_i best_v i xs = NegInf"
  shows "\<forall>y\<in>set (pre @ xs). y = NegInf"
  using assms
proof (induction xs arbitrary: pre best_i best_v i)
  case Nil
  then show ?case by simp
next
  case (Cons x xs)
  let ?pre' = "pre @ [x]"
  show ?case
  proof (cases "\<not> isnan best_v \<and> (isnan x \<or> score_gt x best_v)")
    case True
    then have x: "x \<noteq> NegInf" using NegInf_not_gt by auto
    have "\<forall>y\<in>set (?pre' @ xs). y = NegInf"
    proof (rule Cons.IH[of ?pre' "Suc i" i x])
      show "length ?pre' = Suc i" using Cons.prems(1) by simp
      show "i < Suc i" by simp
      show "?pre' ! i = x" using Cons.prems(1) by (simp add: nth_append)
      show "x = NegInf \<longrightarrow> (\<forall>y\<in>set ?pre'. y = NegInf)" using x by simp
      show "(?pre' @ xs) ! argmax_from i x (Suc i) xs = NegInf"
        using Cons.prems(5) True by simp
    qed
    then show ?thesis by simp
  next
    case False
    have "\<forall>y\<in>set (?pre' @ xs). y = NegInf"
    proof (rule Cons.IH[of ?pre' "Suc i" best_i best_v])
      show "length ?pre' = Suc i" using Cons.prems(1) by simp
      show "best_i < Suc i" using Cons.prems(2) by simp
      show "?pre' ! best_i = best_v" using Cons.prems(1,2,3) by (simp add: nth_append)
      show "best_v = NegInf \<longrightarrow> (\<forall>y\<in>set ?pre'. y = NegInf)"
      proof
        assume b: "best_v = NegInf"
        then have "\<not> isnan x \<and> \<not> score_gt x NegInf" using False by simp
        then have "x = NegInf" using not_gt_NegInf by blast
        then show "\<forall>y\<in>set ?pre'. y = NegInf" using Cons.prems(4) b by simp
      qed
      show "(?pre' @ xs) ! argmax_from best_i best_v (Suc i) xs = NegInf"
        using Cons.prems(5) False by simp
    qed
    then show ?thesis by simp
  qed
qed

lemma argmax_props:
  assumes "qs \<noteq> []"
  shows "\<exists>a. argmax qs = Inr a \<and> a < length qs \<and> (qs ! a = NegInf \<longrightarrow> (\<forall>y\<in>set qs. y = NegInf))"
proof -
  from assms obtain q rest where qs: "qs = q # rest" by (cases qs) auto
  let ?a = "argmax_from 0 q 1 rest"
  have b: "?a < length qs" using argmax_from_bound[of 0 1 q rest] qs by simp
  have "qs ! ?a = NegInf \<longrightarrow> (\<forall>y\<in>set qs. y = NegInf)"
  proof
    assume "qs ! ?a = NegInf"
    then have "([q] @ rest) ! argmax_from 0 q 1 rest = NegInf" using qs by simp
    from argmax_from_NegInf[of "[q]" 1 0 q rest, OF _ _ _ _ this]
    show "\<forall>y\<in>set qs. y = NegInf" using qs by simp
  qed
  then show ?thesis using b qs by (simp add: argmax_def)
qed

lemma masked_fill_nth:
  assumes "length action_mask = length q_values" "i < length q_values"
  shows "masked_fill q_values action_mask =
           Inr (map2 (\<lambda>q legal_here. if \<not> legal_here then NegInf else q) q_values action_mask)"
    and "map2 (\<lambda>q legal_here. if \<not> legal_here then NegInf else q) q_values action_mask ! i
          = (if action_mask ! i then q_values ! i else NegInf)"
  using assms by (simp_all add: masked_fill_def)

text \<open>
  What does hold of \<open>select_action\<close>: on the greedy branch the returned action is legal
  as soon as some legal action has a score other than negative infinity, and on the
  exploring branch as soon as some action is legal.
\<close>

lemma select_action_greedy_legal:
  assumes len: "length action_mask = length (qnet (policy_net agent) (np_ravel st))"
      and ex: "\<exists>i<length action_mask. action_mask ! i \<and> qnet (policy_net agent) (np_ravel st) ! i \<noteq> NegInf"
      and greedy: "rnd > epsilon"
  shows "\<exists>a. fst (select_action qnet rnd drawn agent st epsilon action_mask) = Inr (int a)
             \<and> a < length action_mask \<and> action_mask ! a"
proof -
  let ?q = "qnet (policy_net agent) (np_ravel st)"
  let ?m = "map2 (\<lambda>q legal_here. if \<not> legal_here then NegInf else q) ?q action_mask"
  from ex obtain i where i: "i < length action_mask" "action_mask ! i" "?q ! i \<noteq> NegInf" by blast
  have lm: "length ?m = length action_mask" using len by simp
  have mf: "masked_fill ?q action_mask = Inr ?m" using len by (simp add: masked_fill_def)
  have ne: "?m \<noteq> []" using i(1) lm by auto
  from argmax_props[OF ne] obtain a where
    a: "argmax ?m = Inr a" "a < length ?m" "?m ! a = NegInf \<longrightarrow> (\<forall>y\<in>set ?m. y = NegInf)" by blast
  have mi: "?m ! i = ?q ! i" using i(1,2) len by simp
  have "?m ! i \<in> set ?m" using i(1) lm by (intro nth_mem) simp
  then have "?m ! a \<noteq> NegInf" using a(3) mi i(3) by metis
  moreover have "?m ! a = (if action_mask ! a then ?q ! a else NegInf)"
    using a(2) lm len by simp
  ultimately have "action_mask ! a" by (simp split: if_splits)
  moreover have "fst (select_action qnet rnd drawn agent st epsilon action_mask) = Inr (int a)"
    using greedy mf a(1) by (simp add: select_action_def Let_def)
  ultimately show ?thesis using a(2) lm by auto
qed

lemma np_where_legal:
  assumes "a \<in> set (np_where action_mask)"
  shows "a < length action_mask \<and> action_mask ! a"
  using assms by (simp add: np_where_def)

lemma select_action_explore_legal:
  assumes ex: "\<exists>i<length action_mask. action_mask ! i"
      and explore: "\<not> rnd > epsilon"
  shows "\<exists>a. fst (select_action qnet rnd drawn agent st epsilon action_mask) = Inr (int a)
             \<and> a < length action_mask \<and> action_mask ! a"
proof -
  let ?v = "np_where action_mask"
  from ex obtain i where "i < length action_mask" "action_mask ! i" by blast
  then have "i \<in> set ?v" by (simp add: np_where_def)
  then have ne: "?v \<noteq> []" by auto
  let ?a = "?v ! (drawn mod length ?v)"
  have "?a \<in> set ?v" using ne by (intro nth_mem) simp
  then have "?a < length action_mask \<and> action_mask ! ?a" by (rule np_where_legal)
  moreover have "fst (select_action qnet rnd drawn agent st epsilon action_mask) = Inr (int ?a)"
    using explore ne by (simp add: select_action_def random_choice_def Let_def)
  ultimately show ?thesis by blast
qed

text \<open>
  Claim C2 says that with exploration rate 0 the returned action is never one the mask
  excludes, for every score assignment.  The source does not achieve it when every legal
  action scores negative infinity: the masked entries are overwritten with the same
  value, all entries tie, and the arg-max returns the first index.  With the mask that
  \<open>reset\<close> returns, an exploration rate of 0 and a draw of one half, the returned action
  is 0, which the mask excludes.
\<close>

theorem select_action_all_neginf_returns_masked:
  "fst (select_action (\<lambda>params flat. replicate 19 NegInf) (1 / 2) drawn agent st 0
          (replicate 9 False @ replicate 9 True @ [False])) = Inr 0
   \<and> \<not> (replicate 9 False @ replicate 9 True @ [False]) ! 0"
  by (simp add: select_action_def masked_fill_def argmax_def Let_def replicate_9 eval_nat_numeral)

section \<open>The reward\<close>

















section \<open>The constructor's parameter sets\<close>

text \<open>
  The constructor leaves the target parameters equal to the policy parameters, so the two
  sets have the same number of tensors, each of the same length.
\<close>

lemma DQNAgent_init_same_params:
  assumes "DQNAgent_init params0 opt0 sdim adim capacity bsize gam ta = Inr agent"
  shows "target_net agent = policy_net agent"
  using assms by (auto simp: DQNAgent_init_def split: sum.splits)

end
